theory Spec2Isabelle
  imports Main "HOL-Library.Sublist"
begin

section \<open>Values printed by the program\<close>

text \<open>
  Decimal rendering of integers, as \<^verbatim>\<open>fmt\<close> prints a value of an integer type with the
  default format.
\<close>

fun show_nat :: "nat \<Rightarrow> string" where
  "show_nat n =
     (if n < 10 then [''0123456789'' ! n]
      else show_nat (n div 10) @ [''0123456789'' ! (n mod 10)])"

declare show_nat.simps [simp del]

definition show_int :: "int \<Rightarrow> string" where
  "show_int i = (if i < 0 then CHR ''-'' # show_nat (nat (- i)) else show_nat (nat i))"

text \<open>
  A Go \<^verbatim>\<open>error\<close> value, as far as the program looks at it: its \<^verbatim>\<open>Error()\<close> text and,
  when its dynamic type is \<^verbatim>\<open>*exec.ExitError\<close>, the number that
  \<^verbatim>\<open>ex.Sys().(syscall.WaitStatus).ExitStatus()\<close> gives (the program assumes Unix there).
\<close>

datatype error = ExitError int string | OtherError string

fun Error :: "error \<Rightarrow> string" where
  "Error (ExitError n s) = s"
| "Error (OtherError s) = s"

section \<open>Exit codes\<close>

type_synonym ExitCode = int

text \<open>
  Modelled from the spec: the type \<^verbatim>\<open>ExitCode\<close> and its constants \<^verbatim>\<open>Success\<close>,
  \<^verbatim>\<open>Retry\<close> and \<^verbatim>\<open>Failed\<close> are declared in a file of package \<^verbatim>\<open>program\<close> that is not
  among the sources. The spec (section 3) and the README give them as an integer
  classification: 0 is success, 1 is retry, 2 is failed.
\<close>

definition Success :: ExitCode where "Success = 0"
definition Retry :: ExitCode where "Retry = 1"
definition Failed :: ExitCode where "Failed = 2"

text \<open>
  Modelled from the spec: the status values of an Execution (section 3) and the meaning
  of an exit code as a status: 0 is Success, 1 is Retry, 2 is Failed, and any other
  observed value maps to Failed (sections 4.1 and 8). The function that reads an
  Execution's status is not among the sources.
\<close>

datatype Status =
  Status_Running | Status_Success | Status_Retry | Status_Failed | Status_InternalError

definition status_of :: "ExitCode \<Rightarrow> Status" where
  "status_of c =
     (if c = Success then Status_Success
      else if c = Retry then Status_Retry
      else Status_Failed)"

text \<open>\<^verbatim>\<open>extractExitCode\<close>: a type switch on the error.\<close>

fun extractExitCode :: "error \<Rightarrow> ExitCode \<times> error option" where
  "extractExitCode (ExitError n s) = (n, None)"
| "extractExitCode (OtherError s) = (0, Some (OtherError s))"

section \<open>Channels\<close>

text \<open>
  A Go channel made by \<^verbatim>\<open>make(chan T, n)\<close>: \<open>cap\<close> is its buffer capacity, \<open>buf\<close> the
  values sent and not yet received, oldest first. A send on a channel whose buffer is
  full blocks (\<open>None\<close>) until a receive makes room; a receive on an empty open channel
  blocks. A send on a closed channel panics, which is \<open>None\<close> here as well: in both
  cases nothing is added to the buffer.
\<close>

record 'a chan =
  cap :: nat
  buf :: "'a list"
  closed :: bool

definition make_chan :: "nat \<Rightarrow> 'a chan" where
  "make_chan n = \<lparr>cap = n, buf = [], closed = False\<rparr>"

definition chan_send :: "'a \<Rightarrow> 'a chan \<Rightarrow> 'a chan option" where
  "chan_send x c =
     (if closed c \<or> cap c \<le> length (buf c) then None
      else Some (c\<lparr>buf := buf c @ [x]\<rparr>))"

definition chan_recv :: "'a chan \<Rightarrow> ('a option \<times> 'a chan) option" where
  "chan_recv c =
     (case buf c of
        x # xs \<Rightarrow> Some (Some x, c\<lparr>buf := xs\<rparr>)
      | [] \<Rightarrow> if closed c then Some (None, c) else None)"

definition chan_close :: "'a chan \<Rightarrow> 'a chan option" where
  "chan_close c = (if closed c then None else Some (c\<lparr>closed := True\<rparr>))"

datatype 'a chan_op = Send 'a | Recv | CloseChan

fun chan_step :: "'a chan_op \<Rightarrow> 'a chan \<Rightarrow> 'a chan" where
  "chan_step (Send x) c = (case chan_send x c of None \<Rightarrow> c | Some c' \<Rightarrow> c')"
| "chan_step Recv c = (case chan_recv c of None \<Rightarrow> c | Some (v, c') \<Rightarrow> c')"
| "chan_step CloseChan c = (case chan_close c of None \<Rightarrow> c | Some c' \<Rightarrow> c')"

text \<open>
  Any sequence of operations on a channel; an operation that blocks or panics leaves the
  channel as it is.
\<close>

definition chan_run :: "'a chan_op list \<Rightarrow> 'a chan \<Rightarrow> 'a chan" where
  "chan_run ops c = foldl (\<lambda>c op. chan_step op c) c ops"

definition BUFFER_SIZE :: nat where
  "BUFFER_SIZE = 1000"

section \<open>Programs and Executions\<close>

type_synonym executionMessage = "string \<times> string"

text \<open>
  Modelled from the spec: the struct \<^verbatim>\<open>Execution\<close> and \<^verbatim>\<open>NewExecution\<close> are declared in a
  file that is not among the sources. By the spec (section 3) an Execution has a generated
  unique Id (a string, by its use in \<^verbatim>\<open>ExecutionLog\<close>), a back-reference to the Program
  that owns it and a start time. Here the start time is logical: the number of
  Executions created before this one; the Id is its decimal numeral, and the
  back-reference is the Program's name. \<open>messages\<close> is the channel that \<^verbatim>\<open>Execute\<close> hands
  to \<^verbatim>\<open>NewExecution\<close>.
\<close>

record Execution =
  Id :: string
  Program :: string
  StartTime :: nat
  messages :: "executionMessage chan"

record Program =
  Name :: string
  CommandPath :: string
  MainSource :: string
  executions :: "Execution list"
  locked :: bool

text \<open>
  What lies outside a Program: how many Executions exist, and the lines written by
  package \<^verbatim>\<open>log\<close>, each as the list of its operands.
\<close>

record world =
  created :: nat
  logged :: "string list list"

definition NewExecution :: "Program \<Rightarrow> executionMessage chan \<Rightarrow> world \<Rightarrow> Execution \<times> world" where
  "NewExecution p msgs w =
     (\<lparr>Id = show_nat (created w), Program = Name p, StartTime = created w, messages = msgs\<rparr>,
      w\<lparr>created := Suc (created w)\<rparr>)"

text \<open>
  \<^verbatim>\<open>ProgramLog\<close> and \<^verbatim>\<open>ExecutionLog\<close> print the caller's position (file and line, from
  \<^verbatim>\<open>runtime.Caller(1)\<close>) left-justified in 20 columns, the identity as a slice of strings,
  and the arguments.
\<close>

definition caller_column :: "string \<times> nat \<Rightarrow> string" where
  "caller_column pos =
     (let s = fst pos @ '':'' @ show_nat (snd pos) in s @ replicate (20 - length s) CHR '' '')"

definition ProgramLog :: "string \<times> nat \<Rightarrow> Program \<Rightarrow> string list \<Rightarrow> string list" where
  "ProgramLog pos p args = [caller_column pos, ''['' @ Name p @ '']''] @ args"

definition ExecutionLog :: "string \<times> nat \<Rightarrow> Execution \<Rightarrow> string list \<Rightarrow> string list" where
  "ExecutionLog pos e args =
     [caller_column pos, ''['' @ Program e @ '' '' @ Id e @ '']''] @ args"

section \<open>The goroutines of an Execution\<close>

text \<open>
  What a goroutine does, in program order. \<open>Scan l\<close> is a call of \<^verbatim>\<open>scanner.Scan()\<close> that
  returns true with \<^verbatim>\<open>scanner.Text()\<close> equal to \<open>l\<close>; \<open>ScanEnd\<close> is the call that returns
  false. \<open>SendMessage\<close> and \<open>Finish\<close> are the calls of these methods of the Execution
  (their bodies are not among the sources). \<open>Signal c\<close> is the send on an unbuffered
  completion channel, \<open>Await c\<close> the receive from it, \<open>Wait r\<close> the call of \<^verbatim>\<open>cmd.Wait()\<close>
  that returns \<open>r\<close>, \<open>Report c\<close> the send of \<open>c\<close> on the result channel \<^verbatim>\<open>ch\<close>.
\<close>

datatype channel = Ch_messages | Ch_stdoutFinished | Ch_stderrFinished

datatype action =
    Scan string
  | ScanEnd
  | SendMessage string string
  | Println "string list"
  | Signal channel
  | Await channel
  | Wait "error option"
  | Finish ExitCode
  | Report ExitCode
  | Close channel

text \<open>
  What a \<^verbatim>\<open>bufio.Scanner\<close> on a pipe delivers: the lines of the successive calls of
  \<^verbatim>\<open>Scan()\<close> that return true, and the value of \<^verbatim>\<open>scanner.Err()\<close> once \<^verbatim>\<open>Scan()\<close> has returned
  false (\<open>None\<close> at a clean end of stream).
\<close>

record stream =
  Text :: "string list"
  Err :: "error option"

fun forward_loop :: "string \<Rightarrow> string list \<Rightarrow> action list" where
  "forward_loop messageType [] = [ScanEnd]"
| "forward_loop messageType (l # ls) =
     Scan l # SendMessage messageType l # forward_loop messageType ls"

definition forwardOutput :: "Execution \<Rightarrow> string \<Rightarrow> stream \<Rightarrow> channel \<Rightarrow> action list" where
  "forwardOutput execution messageType r finished =
     forward_loop messageType (Text r) @
     (case Err r of
        None \<Rightarrow> []
      | Some err \<Rightarrow> [Println [Program execution, ''scanner error'', Error err]]) @
     [Signal finished]"

text \<open>
  The supervising goroutine that \<^verbatim>\<open>Execute\<close> starts; \<open>waited\<close> is what \<^verbatim>\<open>cmd.Wait()\<close> returns.
  The three deferred closes run last, in reverse order of their \<^verbatim>\<open>defer\<close> statements.
\<close>

definition classify :: "Program \<Rightarrow> Execution \<Rightarrow> error option \<Rightarrow> action list" where
  "classify p execution waited =
     (case waited of
        None \<Rightarrow>
          [SendMessage ''ok'' ''successfully completed'', Finish Success, Report Success]
      | Some err \<Rightarrow>
          (case extractExitCode err of
             (exitCode, Some err') \<Rightarrow>
               [Println [Name p, ''failed to run'', Error err'],
                SendMessage ''fail'' (''failed to run '' @ Error err'),
                Finish Failed, Report Failed]
           | (exitCode, None) \<Rightarrow>
               [Println (ExecutionLog (''program.go'', 99) execution
                  [''exited with status'', show_int exitCode]),
                SendMessage ''fail'' (''exited with status '' @ show_int exitCode),
                Finish exitCode, Report exitCode]))"

definition supervisor :: "Program \<Rightarrow> Execution \<Rightarrow> error option \<Rightarrow> action list" where
  "supervisor p execution waited =
     [Await Ch_stdoutFinished, Await Ch_stderrFinished, Wait waited] @
     classify p execution waited @
     [Close Ch_stderrFinished, Close Ch_stdoutFinished, Close Ch_messages]"

text \<open>What a sequence of actions does to the Execution and to the result channel.\<close>

fun sent :: "action \<Rightarrow> executionMessage list" where
  "sent (SendMessage t x) = [(t, x)]"
| "sent a = []"

fun finished_with :: "action \<Rightarrow> ExitCode list" where
  "finished_with (Finish c) = [c]"
| "finished_with a = []"

fun reported :: "action \<Rightarrow> ExitCode list" where
  "reported (Report c) = [c]"
| "reported a = []"

fun signalled :: "action \<Rightarrow> channel list" where
  "signalled (Signal c) = [c]"
| "signalled a = []"

fun printed :: "action \<Rightarrow> string list list" where
  "printed (Println xs) = [xs]"
| "printed a = []"

definition messages_of :: "action list \<Rightarrow> executionMessage list" where
  "messages_of as = concat (map sent as)"

definition finishes_of :: "action list \<Rightarrow> ExitCode list" where
  "finishes_of as = concat (map finished_with as)"

definition reports_of :: "action list \<Rightarrow> ExitCode list" where
  "reports_of as = concat (map reported as)"

definition signals_of :: "action list \<Rightarrow> channel list" where
  "signals_of as = concat (map signalled as)"

definition prints_of :: "action list \<Rightarrow> string list list" where
  "prints_of as = concat (map printed as)"

section \<open>Launching a Program\<close>

text \<open>
  What the operating system answers during one call of \<^verbatim>\<open>Execute\<close>: the results of
  \<^verbatim>\<open>cmd.StdoutPipe()\<close>, \<^verbatim>\<open>cmd.StderrPipe()\<close> and \<^verbatim>\<open>cmd.Start()\<close>, and, for a child that
  started, what \<^verbatim>\<open>cmd.Wait()\<close> returns later.
\<close>

record launch =
  StdoutPipe :: "error + stream"
  StderrPipe :: "error + stream"
  Start :: "error option"
  Waited :: "error option"

datatype goroutine = G_stdout | G_stderr | G_supervisor

text \<open>The body of \<^verbatim>\<open>Execute\<close>, between \<^verbatim>\<open>p.Lock()\<close> and the deferred \<^verbatim>\<open>p.Unlock()\<close>.\<close>

definition Execute_body ::
  "launch \<Rightarrow> world \<Rightarrow> Program \<Rightarrow>
     (error + Execution \<times> (goroutine \<Rightarrow> action list)) \<times> world \<times> Program" where
  "Execute_body os w p =
     (let w = w\<lparr>logged := logged w @ [ProgramLog (''program.go'', 45) p [''executing command'']]\<rparr>
      in case StdoutPipe os of
           Inl err \<Rightarrow> (Inl err, w, p)
         | Inr stdout \<Rightarrow>
             (case StderrPipe os of
                Inl err \<Rightarrow> (Inl err, w, p)
              | Inr stderr \<Rightarrow>
                  (case Start os of
                     Some err \<Rightarrow> (Inl err, w, p)
                   | None \<Rightarrow>
                       (let msgs = make_chan BUFFER_SIZE;
                            (execution, w) = NewExecution p msgs w;
                            go = (\<lambda>g. case g of
                                G_stdout \<Rightarrow> forwardOutput execution ''out'' stdout Ch_stdoutFinished
                              | G_stderr \<Rightarrow> forwardOutput execution ''err'' stderr Ch_stderrFinished
                              | G_supervisor \<Rightarrow> supervisor p execution (Waited os));
                            p = p\<lparr>executions := executions p @ [execution]\<rparr>
                        in (Inr (execution, go), w, p)))))"

text \<open>
  \<^verbatim>\<open>Execute\<close>: \<^verbatim>\<open>p.Lock()\<close> does not return while the lock is held (\<open>None\<close>); the deferred
  \<^verbatim>\<open>p.Unlock()\<close> runs after the body, before the caller has the results.
\<close>

definition Execute ::
  "launch \<Rightarrow> world \<Rightarrow> Program \<Rightarrow>
     ((error + Execution \<times> (goroutine \<Rightarrow> action list)) \<times> world \<times> Program) option" where
  "Execute os w p =
     (if locked p then None
      else case Execute_body os w (p\<lparr>locked := True\<rparr>) of
             (r, w', p') \<Rightarrow> Some (r, w', p'\<lparr>locked := False\<rparr>))"

definition Executions :: "Program \<Rightarrow> Execution list" where
  "Executions p = executions p"

section \<open>Runs of the goroutines\<close>

text \<open>
  The goroutines of one Execution run interleaved. A configuration holds what each
  goroutine still has to do and the actions performed so far, oldest first. The two
  completion channels are unbuffered: a send on one completes together with the
  supervisor's receive from it, and neither completes alone. Every other action is
  taken to complete at once; a send on the message channel or on the result channel
  that has to wait for room or for a receiver only delays a goroutine.
\<close>

record config =
  threads :: "goroutine \<Rightarrow> action list"
  trace :: "(goroutine \<times> action) list"

definition start :: "(goroutine \<Rightarrow> action list) \<Rightarrow> config" where
  "start go = \<lparr>threads = go, trace = []\<rparr>"

datatype sync = Sends channel | Receives channel | Local

fun sync_of :: "action \<Rightarrow> sync" where
  "sync_of (Signal ch) = Sends ch"
| "sync_of (Await ch) = Receives ch"
| "sync_of a = Local"

definition perform :: "goroutine \<Rightarrow> config \<Rightarrow> config" where
  "perform g c =
     c\<lparr>threads := (threads c)(g := tl (threads c g)),
       trace := trace c @ [(g, hd (threads c g))]\<rparr>"

definition step :: "goroutine \<Rightarrow> config \<Rightarrow> config option" where
  "step g c =
     (case threads c g of
        [] \<Rightarrow> None
      | a # rest \<Rightarrow>
          (case sync_of a of
             Local \<Rightarrow> Some (perform g c)
           | Receives ch \<Rightarrow> None
           | Sends ch \<Rightarrow>
               (if g \<noteq> G_supervisor \<and> threads c G_supervisor \<noteq> []
                   \<and> hd (threads c G_supervisor) = Await ch
                then Some (perform G_supervisor (perform g c))
                else None)))"

text \<open>A run under a schedule; \<open>None\<close> when the schedule picks a goroutine that cannot move.\<close>

fun run :: "goroutine list \<Rightarrow> config \<Rightarrow> config option" where
  "run [] c = Some c"
| "run (g # gs) c = (case step g c of None \<Rightarrow> None | Some c' \<Rightarrow> run gs c')"

definition actions_by :: "goroutine \<Rightarrow> (goroutine \<times> action) list \<Rightarrow> action list" where
  "actions_by g t = map snd (filter (\<lambda>x. fst x = g) t)"

text \<open>
  Two properties of traces and histories used in the proofs below. In a trace with
  \<open>handshakes\<close> every receive from a completion channel stands right after the send on
  that channel, made by a goroutine other than the supervisor. A Program is
  \<open>chronological\<close> when its Executions stand in the order of their creation and are
  all among those created so far.
\<close>

definition handshakes :: "(goroutine \<times> action) list \<Rightarrow> bool" where
  "handshakes t =
     (\<forall>pre h ch post. t = pre @ (h, Await ch) # post \<longrightarrow>
        (\<exists>pre' g. pre = pre' @ [(g, Signal ch)] \<and> g \<noteq> G_supervisor))"

definition chronological :: "world \<Rightarrow> Program \<Rightarrow> bool" where
  "chronological w p =
     (sorted_wrt (\<lambda>a b. StartTime a < StartTime b) (executions p) \<and>
      (\<forall>x\<in>set (executions p). StartTime x < created w))"

section \<open>Discovering programs\<close>

text \<open>
  The file system as \<^verbatim>\<open>ReadDir\<close> sees it: \<^verbatim>\<open>ioutil.ReadDir\<close> (the names of the entries, in
  the order of the listing), \<^verbatim>\<open>os.Stat\<close>, \<^verbatim>\<open>ioutil.ReadFile\<close>, and \<^verbatim>\<open>filepath.Join\<close>.
\<close>

record filesystem =
  ioutil_ReadDir :: "string \<Rightarrow> error + string list"
  os_Stat :: "string \<Rightarrow> error option"
  ioutil_ReadFile :: "string \<Rightarrow> error + string"
  filepath_Join :: "string list \<Rightarrow> string"

text \<open>The loop of \<^verbatim>\<open>ReadDir\<close> over the entries, \<open>programs\<close> being the slice built so far.\<close>

fun ReadDir_loop ::
  "filesystem \<Rightarrow> string \<Rightarrow> string list \<Rightarrow> Program list \<times> world \<Rightarrow> Program list \<times> world" where
  "ReadDir_loop fs dir [] (programs, w) = (programs, w)"
| "ReadDir_loop fs dir (info # infos) (programs, w) =
     (let commandPath = filepath_Join fs [dir, info, ''main'']
      in case os_Stat fs commandPath of
           Some err \<Rightarrow> ReadDir_loop fs dir infos (programs, w)
         | None \<Rightarrow>
             (case ioutil_ReadFile fs commandPath of
                Inl err \<Rightarrow> ReadDir_loop fs dir infos (programs, w)
              | Inr mainSource \<Rightarrow>
                  ReadDir_loop fs dir infos
                    (programs @
                       [\<lparr>Name = info, CommandPath = commandPath, MainSource = mainSource,
                         executions = [], locked = False\<rparr>],
                     w\<lparr>logged := logged w @ [[''program executable:'', commandPath]]\<rparr>)))"

definition ReadDir :: "filesystem \<Rightarrow> string \<Rightarrow> world \<Rightarrow> (error + Program list) \<times> world" where
  "ReadDir fs dir w =
     (let w = w\<lparr>logged := logged w @ [[''looking for programs in'', dir]]\<rparr>
      in case ioutil_ReadDir fs dir of
           Inl err \<Rightarrow> (Inl err, w)
         | Inr infos \<Rightarrow>
             (case ReadDir_loop fs dir infos ([], w) of (programs, w') \<Rightarrow> (Inr programs, w')))"

text \<open>
  A caller of one Program making any sequence of calls of its two methods:
  \<^verbatim>\<open>Execute\<close>, with what the operating system answers, and \<^verbatim>\<open>Executions\<close>, which returns
  the list and changes nothing.
\<close>

datatype call = Call_Execute launch | Call_Executions

fun calls :: "call list \<Rightarrow> world \<times> Program \<Rightarrow> (world \<times> Program) option" where
  "calls [] s = Some s"
| "calls (Call_Execute os # cs) (w, p) =
     (case Execute os w p of None \<Rightarrow> None | Some (r, w', p') \<Rightarrow> calls cs (w', p'))"
| "calls (Call_Executions # cs) (w, p) =
     (case Executions p of es \<Rightarrow> calls cs (w, p))"

section \<open>Basic facts\<close>

lemma sublist_after: "sublist xs (ys @ xs)"
  by (rule suffix_imp_sublist) (rule suffixI[OF refl])

lemma supervisor_locked [simp]: "supervisor (p\<lparr>locked := b\<rparr>) e r = supervisor p e r"
  by (simp add: supervisor_def classify_def split: option.splits prod.splits)

lemma unlocked_same: "\<not> locked p \<Longrightarrow> p\<lparr>locked := False\<rparr> = p"
  by (cases p) simp

text \<open>What a call of \<^verbatim>\<open>Execute\<close> that returns an Execution has done.\<close>

lemma Execute_started:
  assumes "Execute os w p = Some (Inr (e, go), w', p')"
  shows "\<not> locked p"
    and "\<exists>so se. StdoutPipe os = Inr so \<and> StderrPipe os = Inr se \<and>
           go G_stdout = forwardOutput e ''out'' so Ch_stdoutFinished \<and>
           go G_stderr = forwardOutput e ''err'' se Ch_stderrFinished"
    and "Start os = None"
    and "go G_supervisor = supervisor p e (Waited os)"
    and "e = \<lparr>Id = show_nat (created w), Program = Name p, StartTime = created w,
              messages = make_chan BUFFER_SIZE\<rparr>"
    and "p' = p\<lparr>executions := executions p @ [e]\<rparr>"
    and "w' = w\<lparr>created := Suc (created w),
               logged := logged w @ [ProgramLog (''program.go'', 45) p [''executing command'']]\<rparr>"
  using assms
  by (auto simp: Execute_def Execute_body_def NewExecution_def ProgramLog_def Let_def
      unlocked_same[symmetric]
      split: if_splits sum.splits option.splits)

lemma messages_of_simps [simp]:
  "messages_of [] = []"
  "messages_of (a # as) = sent a @ messages_of as"
  "messages_of (as @ bs) = messages_of as @ messages_of bs"
  by (simp_all add: messages_of_def)

lemma finishes_of_simps [simp]:
  "finishes_of [] = []"
  "finishes_of (a # as) = finished_with a @ finishes_of as"
  "finishes_of (as @ bs) = finishes_of as @ finishes_of bs"
  by (simp_all add: finishes_of_def)

lemma reports_of_simps [simp]:
  "reports_of [] = []"
  "reports_of (a # as) = reported a @ reports_of as"
  "reports_of (as @ bs) = reports_of as @ reports_of bs"
  by (simp_all add: reports_of_def)

lemma signals_of_simps [simp]:
  "signals_of [] = []"
  "signals_of (a # as) = signalled a @ signals_of as"
  "signals_of (as @ bs) = signals_of as @ signals_of bs"
  by (simp_all add: signals_of_def)

lemma prints_of_simps [simp]:
  "prints_of [] = []"
  "prints_of (a # as) = printed a @ prints_of as"
  "prints_of (as @ bs) = prints_of as @ prints_of bs"
  by (simp_all add: prints_of_def)

lemma forward_loop_messages [simp]: "messages_of (forward_loop t ls) = map (Pair t) ls"
  by (induction ls) simp_all

lemma forward_loop_quiet [simp]:
  "finishes_of (forward_loop t ls) = []"
  "reports_of (forward_loop t ls) = []"
  "signals_of (forward_loop t ls) = []"
  "prints_of (forward_loop t ls) = []"
  by (induction ls) simp_all

lemma forwardOutput_messages: "messages_of (forwardOutput e t r fin) = map (Pair t) (Text r)"
  by (simp add: forwardOutput_def split: option.splits)

lemma forwardOutput_quiet:
  "finishes_of (forwardOutput e t r fin) = []"
  "reports_of (forwardOutput e t r fin) = []"
  "signals_of (forwardOutput e t r fin) = [fin]"
  by (simp_all add: forwardOutput_def split: option.splits)

lemma classify_cases:
  "classify p e None = [SendMessage ''ok'' ''successfully completed'', Finish Success, Report Success]"
  "classify p e (Some (ExitError n s)) =
     [Println (ExecutionLog (''program.go'', 99) e [''exited with status'', show_int n]),
      SendMessage ''fail'' (''exited with status '' @ show_int n), Finish n, Report n]"
  "classify p e (Some (OtherError s)) =
     [Println [Name p, ''failed to run'', s], SendMessage ''fail'' (''failed to run '' @ s),
      Finish Failed, Report Failed]"
  by (simp_all add: classify_def)

lemma caller_column_Execute: "caller_column (''program.go'', 45) = ''program.go:45       ''"
  by code_simp

text \<open>The value that the supervisor passes to \<^verbatim>\<open>Finish\<close> and sends on the result channel.\<close>

lemma supervisor_outcome:
  "finishes_of (supervisor p e r) =
     [case r of
        None \<Rightarrow> Success
      | Some err \<Rightarrow>
          (case extractExitCode err of
             (exitCode, None) \<Rightarrow> exitCode
           | (exitCode, Some err') \<Rightarrow> Failed)]"
  "reports_of (supervisor p e r) = finishes_of (supervisor p e r)"
  by (simp_all add: supervisor_def classify_def split: option.splits prod.splits)

section \<open>Facts about runs\<close>

lemma actions_by_simps [simp]:
  "actions_by h [] = []"
  "actions_by h ((g, a) # t) = (if g = h then a # actions_by h t else actions_by h t)"
  "actions_by h (t @ u) = actions_by h t @ actions_by h u"
  by (simp_all add: actions_by_def)

lemma step_actions:
  assumes "step g c = Some c'"
  shows "actions_by h (trace c') @ threads c' h = actions_by h (trace c) @ threads c h"
proof (cases "threads c g")
  case Nil
  with assms show ?thesis by (simp add: step_def)
next
  case (Cons a rest)
  show ?thesis
  proof (cases "sync_of a")
    case Local
    with assms Cons show ?thesis
      by (auto simp: step_def perform_def)
  next
    case (Receives ch)
    with assms Cons show ?thesis by (simp add: step_def)
  next
    case (Sends ch)
    with assms Cons have sup: "g \<noteq> G_supervisor" "threads c G_supervisor \<noteq> []"
      and c': "c' = perform G_supervisor (perform g c)"
      by (auto simp: step_def split: if_splits)
    from sup(2) obtain b srest where "threads c G_supervisor = b # srest"
      by (cases "threads c G_supervisor") auto
    with Cons sup(1) c' show ?thesis
      by (auto simp: perform_def)
  qed
qed

lemma run_actions:
  "run sched c = Some c' \<Longrightarrow>
     actions_by h (trace c') @ threads c' h = actions_by h (trace c) @ threads c h"
proof (induction sched arbitrary: c)
  case Nil
  then show ?case by simp
next
  case (Cons g gs)
  then obtain c1 where 1: "step g c = Some c1" and 2: "run gs c1 = Some c'"
    by (auto split: option.splits)
  from Cons.IH[OF 2] step_actions[OF 1] show ?case by simp
qed

lemma handshakes_local:
  assumes "handshakes t" and "sync_of a = Local"
  shows "handshakes (t @ [(g, a)])"
  unfolding handshakes_def
proof (intro allI impI)
  fix pre h ch post
  assume eq: "t @ [(g, a)] = pre @ (h, Await ch) # post"
  show "\<exists>pre' g. pre = pre' @ [(g, Signal ch)] \<and> g \<noteq> G_supervisor"
  proof (cases post rule: rev_cases)
    case Nil
    with eq assms(2) show ?thesis by auto
  next
    case (snoc post' x)
    with eq have "t = pre @ (h, Await ch) # post'" by simp
    with assms(1) show ?thesis unfolding handshakes_def by blast
  qed
qed

lemma handshakes_sync:
  assumes "handshakes t" and "g \<noteq> G_supervisor"
  shows "handshakes (t @ [(g, Signal c), (G_supervisor, Await c)])"
  unfolding handshakes_def
proof (intro allI impI)
  fix pre h ch post
  assume eq: "t @ [(g, Signal c), (G_supervisor, Await c)] = pre @ (h, Await ch) # post"
  show "\<exists>pre' g. pre = pre' @ [(g, Signal ch)] \<and> g \<noteq> G_supervisor"
  proof (cases post rule: rev_cases)
    case Nil
    with eq have "pre = t @ [(g, Signal c)]" and "ch = c" by auto
    with assms(2) show ?thesis by blast
  next
    case (snoc post1 x)
    note p1 = this
    show ?thesis
    proof (cases post1 rule: rev_cases)
      case Nil
      with p1 eq have "t @ [(g, Signal c), (G_supervisor, Await c)] = (pre @ [(h, Await ch)]) @ [x]"
        by simp
      then have "t @ [(g, Signal c)] = pre @ [(h, Await ch)]"
        by (metis append_assoc append_Cons append_Nil butlast_snoc)
      then show ?thesis by simp
    next
      case (snoc post2 y)
      with p1 eq have "(t @ [(g, Signal c)]) @ [(G_supervisor, Await c)] =
          (pre @ (h, Await ch) # post2 @ [y]) @ [x]" by simp
      then have "t @ [(g, Signal c)] = pre @ (h, Await ch) # post2 @ [y]"
        by (simp only: append1_eq_conv)
      then have "t @ [(g, Signal c)] = (pre @ (h, Await ch) # post2) @ [y]"
        by simp
      then have "t = pre @ (h, Await ch) # post2"
        by (simp only: append1_eq_conv)
      with assms(1) show ?thesis unfolding handshakes_def by blast
    qed
  qed
qed

lemma step_handshakes:
  assumes "step g c = Some c'" and "handshakes (trace c)"
  shows "handshakes (trace c')"
proof (cases "threads c g")
  case Nil
  with assms show ?thesis by (simp add: step_def)
next
  case (Cons a rest)
  show ?thesis
  proof (cases "sync_of a")
    case Local
    with assms Cons show ?thesis
      by (auto simp: step_def perform_def intro: handshakes_local)
  next
    case (Receives ch)
    with assms Cons show ?thesis by (simp add: step_def)
  next
    case (Sends ch)
    then have a: "a = Signal ch" by (cases a) simp_all
    from Sends assms Cons have sup: "g \<noteq> G_supervisor" "hd (threads c G_supervisor) = Await ch"
      and c': "c' = perform G_supervisor (perform g c)"
      by (auto simp: step_def split: if_splits)
    from c' sup Cons a have "trace c' = trace c @ [(g, Signal ch), (G_supervisor, Await ch)]"
      by (simp add: perform_def)
    with handshakes_sync[OF assms(2) sup(1)] show ?thesis by simp
  qed
qed

lemma run_handshakes:
  "run sched c = Some c' \<Longrightarrow> handshakes (trace c) \<Longrightarrow> handshakes (trace c')"
proof (induction sched arbitrary: c)
  case Nil
  then show ?case by simp
next
  case (Cons g gs)
  then obtain c1 where 1: "step g c = Some c1" and 2: "run gs c1 = Some c'"
    by (auto split: option.splits)
  from Cons.IH[OF 2 step_handshakes[OF 1 Cons.prems(2)]] show ?case .
qed


lemma start_facts [simp]: "trace (start go) = []" "threads (start go) = go"
  by (simp_all add: start_def)

lemma handshakes_Nil: "handshakes []"
  by (simp add: handshakes_def)

lemma in_actions_by: "a \<in> set (actions_by h t) \<Longrightarrow> (h, a) \<in> set t"
  by (auto simp: actions_by_def)

lemma classify_no_Wait: "Wait r' \<notin> set (classify p e r)"
  by (auto simp: classify_def split: option.splits prod.splits)

lemma supervisor_before_Wait:
  assumes "xs @ Wait r' # later = supervisor p e r"
  shows "xs = [Await Ch_stdoutFinished, Await Ch_stderrFinished] \<and> r' = r"
proof -
  let ?rest = "classify p e r @ [Close Ch_stderrFinished, Close Ch_stdoutFinished, Close Ch_messages]"
  have no: "Wait r' \<notin> set ?rest"
    using classify_no_Wait by simp
  from assms have eq: "xs @ Wait r' # later =
      Await Ch_stdoutFinished # Await Ch_stderrFinished # Wait r # ?rest"
    by (simp add: supervisor_def)
  show ?thesis
  proof (cases xs)
    case Nil
    with eq show ?thesis by simp
  next
    case (Cons x1 xs1)
    note c1 = this
    show ?thesis
    proof (cases xs1)
      case Nil
      with c1 eq show ?thesis by simp
    next
      case (Cons x2 xs2)
      note c2 = this
      show ?thesis
      proof (cases xs2)
        case Nil
        with c1 c2 eq show ?thesis by simp
      next
        case (Cons x3 xs3)
        with c1 c2 eq have "xs3 @ Wait r' # later = ?rest" by simp
        then have "Wait r' \<in> set ?rest"
          by (metis in_set_conv_decomp)
        with no show ?thesis by blast
      qed
    qed
  qed
qed

lemma forwardOutput_Signal_last:
  assumes "ys @ Signal ch # later = forwardOutput e t s fin"
  shows "ch = fin \<and> later = []"
proof -
  have sig: "signals_of (ys @ Signal ch # later) = [fin]"
    by (simp only: assms forwardOutput_quiet)
  then have ch: "ch = fin" and quiet: "signals_of later = []"
    by (auto simp: append_eq_Cons_conv Cons_eq_append_conv)
  have "later = []"
  proof (rule ccontr)
    assume "later \<noteq> []"
    then have "last (ys @ Signal ch # later) = last later" by simp
    also have "last (ys @ Signal ch # later) = Signal fin"
      by (simp only: assms) (simp add: forwardOutput_def)
    finally have "last later = Signal fin" by simp
    with \<open>later \<noteq> []\<close> have "later = butlast later @ [Signal fin]"
      by (metis append_butlast_last_id)
    then have "signals_of later = signals_of (butlast later) @ [fin]"
      by (metis signals_of_simps(2,3) signals_of_simps(1) signalled.simps(1) append_Nil2)
    with quiet show False by simp
  qed
  with ch show ?thesis by simp
qed

text \<open>In a run, everything a forwarder does precedes the supervisor's receive of its signal.\<close>

lemma forwarder_done_before_receive:
  assumes run: "run sched (start go) = Some c"
    and fw: "go g = forwardOutput e t s fin" and other: "\<And>h. h \<noteq> g \<Longrightarrow> h \<noteq> G_supervisor \<Longrightarrow>
        \<exists>e' t' s' fin'. go h = forwardOutput e' t' s' fin' \<and> fin' \<noteq> fin"
    and g: "g \<noteq> G_supervisor"
    and tr: "trace c = pre @ (G_supervisor, Await fin) # post"
  shows "actions_by g pre = go g"
proof -
  have "handshakes (trace c)"
    using run_handshakes[OF run] handshakes_Nil by simp
  with tr obtain pre' g' where pre: "pre = pre' @ [(g', Signal fin)]" and g': "g' \<noteq> G_supervisor"
    unfolding handshakes_def by blast
  have proj: "actions_by h (trace c) @ threads c h = go h" for h
    using run_actions[OF run, of h] by simp
  have "g' = g"
  proof (rule ccontr)
    assume "g' \<noteq> g"
    from other[OF this g'] obtain e' t' s' fin' where
      o: "go g' = forwardOutput e' t' s' fin'" "fin' \<noteq> fin" by blast
    from proj[of g'] have "actions_by g' pre' @ Signal fin #
        (actions_by g' post @ threads c g') = forwardOutput e' t' s' fin'"
      using g' by (simp add: tr pre o)
    from forwardOutput_Signal_last[OF this] o(2) show False by simp
  qed
  from proj[of g] have "actions_by g pre' @ Signal fin #
      (actions_by g post @ threads c g) = forwardOutput e t s fin"
    using g \<open>g' = g\<close> by (simp add: tr pre fw)
  from forwardOutput_Signal_last[OF this] this show ?thesis
    using \<open>g' = g\<close> by (simp add: pre fw)
qed

lemma run_append:
  "run (s1 @ s2) c = (case run s1 c of None \<Rightarrow> None | Some c1 \<Rightarrow> run s2 c1)"
  by (induction s1 arbitrary: c) (simp_all split: option.splits)

lemma run_locals:
  assumes "threads c g = xs @ rest" and "\<forall>a\<in>set xs. sync_of a = Local"
  shows "run (replicate (length xs) g) c =
           Some (c\<lparr>threads := (threads c)(g := rest), trace := trace c @ map (Pair g) xs\<rparr>)"
  using assms
proof (induction xs arbitrary: c)
  case Nil
  then have "(threads c)(g := rest) = threads c" by auto
  then show ?case by simp
next
  case (Cons a xs)
  from Cons.prems have st: "step g c = Some (perform g c)"
    by (simp add: step_def)
  have th: "threads (perform g c) g = xs @ rest"
    using Cons.prems(1) by (simp add: perform_def)
  from Cons.prems(2) have loc: "\<forall>a\<in>set xs. sync_of a = Local" by simp
  have u: "(threads (perform g c))(g := rest) = (threads c)(g := rest)"
    and v: "trace (perform g c) @ map (Pair g) xs = trace c @ map (Pair g) (a # xs)"
    using Cons.prems(1) by (simp_all add: perform_def)
  have "(perform g c)\<lparr>threads := (threads c)(g := rest),
      trace := trace c @ map (Pair g) (a # xs)\<rparr> =
    c\<lparr>threads := (threads c)(g := rest), trace := trace c @ map (Pair g) (a # xs)\<rparr>"
    by (simp add: perform_def)
  with Cons.IH[OF th loc] st show ?case
    by (simp only: u v run.simps option.case length_Cons replicate_Suc)
qed

lemma forward_loop_Local: "\<forall>a\<in>set (forward_loop t ls). sync_of a = Local"
  by (induction ls) simp_all

lemma classify_Local: "\<forall>a\<in>set (classify p e r). sync_of a = Local"
  by (auto simp: classify_def split: option.splits prod.splits)

text \<open>A forwarder whose signal the supervisor is ready to receive runs to its end.\<close>

lemma forwarder_runs:
  assumes fw: "threads c g = forwardOutput e t s fin" and g: "g \<noteq> G_supervisor"
    and sup: "threads c G_supervisor = Await fin # srest"
  shows "\<exists>sched c'. run sched c = Some c' \<and>
           threads c' = (threads c)(g := [], G_supervisor := srest)"
proof -
  let ?xs = "forward_loop t (Text s) @
     (case Err s of None \<Rightarrow> []
      | Some err \<Rightarrow> [Println [Program e, ''scanner error'', Error err]])"
  have th: "threads c g = ?xs @ [Signal fin]"
    by (simp add: fw forwardOutput_def)
  have loc: "\<forall>a\<in>set ?xs. sync_of a = Local"
    using forward_loop_Local by (auto split: option.splits)
  let ?c1 = "c\<lparr>threads := (threads c)(g := [Signal fin]), trace := trace c @ map (Pair g) ?xs\<rparr>"
  have r1: "run (replicate (length ?xs) g) c = Some ?c1"
    by (rule run_locals[OF th loc])
  have "step g ?c1 = Some (perform G_supervisor (perform g ?c1))"
    using g sup by (simp add: step_def)
  then have r2: "run [g] ?c1 = Some (perform G_supervisor (perform g ?c1))"
    by simp
  have "threads (perform G_supervisor (perform g ?c1)) = (threads c)(g := [], G_supervisor := srest)"
    using g sup by (simp add: perform_def)
  moreover have "run (replicate (length ?xs) g @ [g]) c = Some (perform G_supervisor (perform g ?c1))"
    by (simp only: run_append r1 r2 option.case)
  ultimately show ?thesis by blast
qed

lemma complete_run_exists:
  assumes "Execute os w p = Some (Inr (e, go), w', p')"
  shows "\<exists>sched c. run sched (start go) = Some c \<and> (\<forall>g. threads c g = [])"
proof -
  from Execute_started(2)[OF assms(1)] obtain so se where
    f: "go G_stdout = forwardOutput e ''out'' so Ch_stdoutFinished"
       "go G_stderr = forwardOutput e ''err'' se Ch_stderrFinished" by blast
  have s: "go G_supervisor = supervisor p e (Waited os)"
    by (rule Execute_started(4)[OF assms(1)])
  let ?tail = "Wait (Waited os) # classify p e (Waited os) @
      [Close Ch_stderrFinished, Close Ch_stdoutFinished, Close Ch_messages]"
  have s0: "threads (start go) G_supervisor =
      Await Ch_stdoutFinished # Await Ch_stderrFinished # ?tail"
    by (simp add: s supervisor_def)
  have f0: "threads (start go) G_stdout = forwardOutput e ''out'' so Ch_stdoutFinished"
    by (simp add: f)
  from forwarder_runs[OF f0 _ s0] obtain s1 c1 where
    r1: "run s1 (start go) = Some c1" and
    t1: "threads c1 = go(G_stdout := [], G_supervisor := Await Ch_stderrFinished # ?tail)"
    by auto
  have f1: "threads c1 G_stderr = forwardOutput e ''err'' se Ch_stderrFinished"
    and sup1: "threads c1 G_supervisor = Await Ch_stderrFinished # ?tail"
    by (simp_all add: t1 f)
  from forwarder_runs[OF f1 _ sup1] obtain s2 c2 where
    r2: "run s2 c1 = Some c2" and
    t2: "threads c2 = (threads c1)(G_stderr := [], G_supervisor := ?tail)"
    by auto
  have sup2: "threads c2 G_supervisor = ?tail @ []"
    by (simp add: t2)
  have loc: "\<forall>a\<in>set ?tail. sync_of a = Local"
    using classify_Local by simp
  let ?c3 = "c2\<lparr>threads := (threads c2)(G_supervisor := []),
      trace := trace c2 @ map (Pair G_supervisor) ?tail\<rparr>"
  have r3: "run (replicate (length ?tail) G_supervisor) c2 = Some ?c3"
    by (rule run_locals[OF sup2 loc])
  have "run (s1 @ s2 @ replicate (length ?tail) G_supervisor) (start go) = Some ?c3"
    by (simp only: run_append r1 r2 r3 option.case)
  moreover have "threads ?c3 g = []" for g
    by (cases g) (simp_all add: t2 t1)
  ultimately show ?thesis by blast
qed

lemma only_supervisor:
  "concat (map f (actions_by G_stdout t)) = [] \<Longrightarrow>
   concat (map f (actions_by G_stderr t)) = [] \<Longrightarrow>
   concat (map f (map snd t)) = concat (map f (actions_by G_supervisor t))"
proof (induction t)
  case Nil
  then show ?case by simp
next
  case (Cons x t)
  obtain g a where x: "x = (g, a)" by (cases x)
  with Cons show ?case by (cases g) auto
qed

lemma complete_run_actions:
  assumes "run sched (start go) = Some c" and "\<forall>g. threads c g = []"
  shows "actions_by g (trace c) = go g"
  using run_actions[OF assms(1), of g] assms(2) by simp

lemma complete_run_outcome:
  assumes "Execute os w p = Some (Inr (e, go), w', p')"
    and "run sched (start go) = Some c" and "\<forall>g. threads c g = []"
  shows "finishes_of (map snd (trace c)) = finishes_of (supervisor p e (Waited os))"
    and "reports_of (map snd (trace c)) = reports_of (supervisor p e (Waited os))"
proof -
  from Execute_started(2)[OF assms(1)] obtain so se where
    f: "go G_stdout = forwardOutput e ''out'' so Ch_stdoutFinished"
       "go G_stderr = forwardOutput e ''err'' se Ch_stderrFinished" by blast
  have s: "go G_supervisor = supervisor p e (Waited os)"
    by (rule Execute_started(4)[OF assms(1)])
  note all = complete_run_actions[OF assms(2,3)]
  have "finishes_of (actions_by G_stdout (trace c)) = []"
    and "finishes_of (actions_by G_stderr (trace c)) = []"
    by (simp_all add: all f forwardOutput_quiet)
  then show "finishes_of (map snd (trace c)) = finishes_of (supervisor p e (Waited os))"
    unfolding finishes_of_def using only_supervisor[of finished_with "trace c"]
    by (simp add: all s)
  have "reports_of (actions_by G_stdout (trace c)) = []"
    and "reports_of (actions_by G_stderr (trace c)) = []"
    by (simp_all add: all f forwardOutput_quiet)
  then show "reports_of (map snd (trace c)) = reports_of (supervisor p e (Waited os))"
    unfolding reports_of_def using only_supervisor[of reported "trace c"]
    by (simp add: all s)
qed

section \<open>Exit codes and outcomes\<close>

text \<open>
  Claim C1. Take any call of \<^verbatim>\<open>Execute\<close> that starts the child, and let the child exit
  with status \<open>n\<close>, so that \<^verbatim>\<open>cmd.Wait()\<close> returns nil when \<open>n\<close> is 0 and otherwise an
  \<^verbatim>\<open>*exec.ExitError\<close> carrying \<open>n\<close>. Then the supervisor sends exactly one message: the
  "ok" message when \<open>n\<close> is 0, else a "fail" message whose text contains the numeral of
  \<open>n\<close> (the numerals of 1, 2 and 5 being "1", "2" and "5"); it finishes the Execution
  once, with the value \<open>n\<close>, whose status is Success for 0, Retry for 1, and Failed for 2
  and for every other \<open>n\<close>. The two forwarders send no "ok" and no "fail" message.
\<close>

theorem exit_code_outcome:
  assumes "Execute os w p = Some (Inr (e, go), w', p')"
    and "Waited os = (if n = 0 then None else Some (ExitError n s))"
  shows "messages_of (go G_supervisor) =
           [if n = 0 then (''ok'', ''successfully completed'')
            else (''fail'', ''exited with status '' @ show_int n)]
       \<and> sublist (show_int n) (''exited with status '' @ show_int n)
       \<and> show_int 1 = ''1'' \<and> show_int 2 = ''2'' \<and> show_int 5 = ''5''
       \<and> finishes_of (go G_supervisor) = [n]
       \<and> map status_of (finishes_of (go G_supervisor)) =
           [if n = 0 then Status_Success else if n = 1 then Status_Retry else Status_Failed]
       \<and> filter (\<lambda>m. fst m = ''ok'' \<or> fst m = ''fail'') (messages_of (go G_stdout)) = []
       \<and> filter (\<lambda>m. fst m = ''ok'' \<or> fst m = ''fail'') (messages_of (go G_stderr)) = []"
proof -
  from Execute_started(2)[OF assms(1)] obtain so se where
    f: "go G_stdout = forwardOutput e ''out'' so Ch_stdoutFinished"
       "go G_stderr = forwardOutput e ''err'' se Ch_stderrFinished" by blast
  have s: "go G_supervisor = supervisor p e (Waited os)"
    by (rule Execute_started(4)[OF assms(1)])
  have "sublist (show_int n) (''exited with status '' @ show_int n)"
    by (rule sublist_after)
  moreover have "show_int 1 = ''1'' \<and> show_int 2 = ''2'' \<and> show_int 5 = ''5''"
    by (simp add: show_int_def show_nat.simps)
  moreover have "messages_of (go G_supervisor) =
           [if n = 0 then (''ok'', ''successfully completed'')
            else (''fail'', ''exited with status '' @ show_int n)]"
    by (simp add: s assms(2) supervisor_def classify_cases)
  moreover have "finishes_of (go G_supervisor) = [n]"
    by (simp add: s assms(2) supervisor_def classify_cases Success_def)
  moreover have "map status_of (finishes_of (go G_supervisor)) =
           [if n = 0 then Status_Success else if n = 1 then Status_Retry else Status_Failed]"
    by (simp add: s assms(2) supervisor_def classify_cases status_of_def Success_def Retry_def)
  moreover have "filter (\<lambda>m. fst m = ''ok'' \<or> fst m = ''fail'') (messages_of (go G_stdout)) = []"
    by (simp add: f forwardOutput_messages filter_empty_conv)
  moreover have "filter (\<lambda>m. fst m = ''ok'' \<or> fst m = ''fail'') (messages_of (go G_stderr)) = []"
    by (simp add: f forwardOutput_messages filter_empty_conv)
  ultimately show ?thesis by blast
qed

theorem exit_code_outcome_witness:
  "\<exists>e go w' p'.
     Execute
       \<lparr>StdoutPipe = Inr \<lparr>Text = [''working''], Err = None\<rparr>,
        StderrPipe = Inr \<lparr>Text = [], Err = None\<rparr>,
        Start = None, Waited = Some (ExitError 5 ''exit status 5'')\<rparr>
       \<lparr>created = 0, logged = []\<rparr>
       \<lparr>Name = ''backup'', CommandPath = ''work/backup/main'', MainSource = ''exit 5'',
        executions = [], locked = False\<rparr>
       = Some (Inr (e, go), w', p')
     \<and> messages_of (go G_supervisor) = [(''fail'', ''exited with status 5'')]
     \<and> map status_of (finishes_of (go G_supervisor)) = [Status_Failed]"
proof -
  let ?os = "\<lparr>StdoutPipe = Inr \<lparr>Text = [''working''], Err = None\<rparr>,
        StderrPipe = Inr \<lparr>Text = [], Err = None\<rparr>,
        Start = None, Waited = Some (ExitError 5 ''exit status 5'')\<rparr>"
  let ?w = "\<lparr>created = 0, logged = []\<rparr>"
  let ?p = "\<lparr>Name = ''backup'', CommandPath = ''work/backup/main'', MainSource = ''exit 5'',
        executions = [], locked = False\<rparr>"
  obtain e go w' p' where ex: "Execute ?os ?w ?p = Some (Inr (e, go), w', p')"
    by (simp add: Execute_def Execute_body_def NewExecution_def Let_def)
  have wt: "Waited ?os = (if (5::int) = 0 then None else Some (ExitError 5 ''exit status 5''))"
    by simp
  have five: "show_int 5 = ''5''"
    by (simp add: show_int_def show_nat.simps)
  from exit_code_outcome[OF ex wt] five
  have c: "messages_of (go G_supervisor) = [(''fail'', ''exited with status 5'')]"
    "map status_of (finishes_of (go G_supervisor)) = [Status_Failed]"
    by (simp_all add: status_of_def Success_def Retry_def)
  show ?thesis
    by (intro exI conjI) (rule ex, rule c(1), rule c(2))
qed

lemma classify_unextractable:
  "snd (extractExitCode err) \<noteq> None \<Longrightarrow>
   classify p e (Some err) =
     [Println [Name p, ''failed to run'', Error err],
      SendMessage ''fail'' (''failed to run '' @ Error err), Finish Failed, Report Failed]"
  by (cases err) (simp_all add: classify_def)

text \<open>
  Claim C4, as amended. When \<^verbatim>\<open>cmd.Wait()\<close> returns an error from which
  \<^verbatim>\<open>extractExitCode\<close> extracts no exit code, the supervisor sends exactly one message,
  a "fail" message whose text is "failed to run " followed by the error's text, and it
  passes \<^verbatim>\<open>Failed\<close> to \<^verbatim>\<open>Finish\<close> and to the result channel: the status is Failed, the
  same value that an exit with status 2 gives.
\<close>

theorem unextractable_exit_is_Failed:
  assumes "Execute os w p = Some (Inr (e, go), w', p')"
    and "Waited os = Some err"
    and "snd (extractExitCode err) \<noteq> None"
  shows "messages_of (go G_supervisor) = [(''fail'', ''failed to run '' @ Error err)]
       \<and> sublist (Error err) (''failed to run '' @ Error err)
       \<and> finishes_of (go G_supervisor) = [Failed]
       \<and> reports_of (go G_supervisor) = [Failed]
       \<and> map status_of (finishes_of (go G_supervisor)) = [Status_Failed]
       \<and> finishes_of (go G_supervisor) = finishes_of (supervisor p e (Some (ExitError 2 s)))"
proof -
  have s: "go G_supervisor = supervisor p e (Some err)"
    using Execute_started(4)[OF assms(1)] assms(2) by simp
  have "sublist (Error err) (''failed to run '' @ Error err)"
    by (rule sublist_after)
  then show ?thesis
    by (simp add: s supervisor_def classify_unextractable[OF assms(3)] classify_cases
        status_of_def Success_def Retry_def Failed_def)
qed

theorem unextractable_exit_is_Failed_witness:
  "\<exists>e go w' p'.
     Execute
       \<lparr>StdoutPipe = Inr \<lparr>Text = [], Err = None\<rparr>,
        StderrPipe = Inr \<lparr>Text = [], Err = None\<rparr>,
        Start = None, Waited = Some (OtherError ''wait: no child processes'')\<rparr>
       \<lparr>created = 0, logged = []\<rparr>
       \<lparr>Name = ''backup'', CommandPath = ''work/backup/main'', MainSource = '''',
        executions = [], locked = False\<rparr>
       = Some (Inr (e, go), w', p')
     \<and> messages_of (go G_supervisor) = [(''fail'', ''failed to run wait: no child processes'')]
     \<and> finishes_of (go G_supervisor) = [2]
     \<and> reports_of (go G_supervisor) = [2]"
proof -
  let ?os = "\<lparr>StdoutPipe = Inr \<lparr>Text = [], Err = None\<rparr>,
        StderrPipe = Inr \<lparr>Text = [], Err = None\<rparr>,
        Start = None, Waited = Some (OtherError ''wait: no child processes'')\<rparr>"
  let ?w = "\<lparr>created = 0, logged = []\<rparr>"
  let ?p = "\<lparr>Name = ''backup'', CommandPath = ''work/backup/main'', MainSource = '''',
        executions = [], locked = False\<rparr>"
  obtain e go w' p' where ex: "Execute ?os ?w ?p = Some (Inr (e, go), w', p')"
    by (simp add: Execute_def Execute_body_def NewExecution_def Let_def)
  have wt: "Waited ?os = Some (OtherError ''wait: no child processes'')"
    by simp
  have un: "snd (extractExitCode (OtherError ''wait: no child processes'')) \<noteq> None"
    by simp
  from unextractable_exit_is_Failed[OF ex wt un]
  have c: "messages_of (go G_supervisor) = [(''fail'', ''failed to run wait: no child processes'')]"
    "finishes_of (go G_supervisor) = [2]"
    "reports_of (go G_supervisor) = [2]"
    by (simp_all add: Failed_def)
  show ?thesis
    by (intro exI conjI) (rule ex, rule c(1), rule c(2), rule c(3))
qed

text \<open>
  Claim C4 as stated fails: for a child whose \<^verbatim>\<open>Wait\<close> fails with an error that is not
  an exit error, the status of the value passed to \<^verbatim>\<open>Finish\<close> is not InternalError.
\<close>

theorem unextractable_exit_not_InternalError:
  "map status_of (finishes_of (snd (projr (fst (the (Execute
       \<lparr>StdoutPipe = Inr \<lparr>Text = [], Err = None\<rparr>,
        StderrPipe = Inr \<lparr>Text = [], Err = None\<rparr>,
        Start = None, Waited = Some (OtherError ''wait: no child processes'')\<rparr>
       \<lparr>created = 0, logged = []\<rparr>
       \<lparr>Name = ''backup'', CommandPath = ''work/backup/main'', MainSource = '''',
        executions = [], locked = False\<rparr>)))) G_supervisor))
     \<noteq> [Status_InternalError]"
  by (simp add: Execute_def Execute_body_def NewExecution_def Let_def supervisor_def
      classify_def status_of_def Success_def Retry_def Failed_def)



section \<open>The stream forwarder\<close>

lemma forward_loop_shape:
  "forward_loop t ls = concat (map (\<lambda>l. [Scan l, SendMessage t l]) ls) @ [ScanEnd]"
  by (induction ls) simp_all

lemma length_reads: "length (concat (map (\<lambda>l. [Scan l, SendMessage t l]) ls)) = 2 * length ls"
  by (induction ls) simp_all

lemma reads_nth:
  "i < length ls \<Longrightarrow>
     concat (map (\<lambda>l. [Scan l, SendMessage t l]) ls) ! (2 * i) = Scan (ls ! i) \<and>
     concat (map (\<lambda>l. [Scan l, SendMessage t l]) ls) ! (2 * i + 1) = SendMessage t (ls ! i)"
proof (induction ls arbitrary: i)
  case Nil
  then show ?case by simp
next
  case (Cons l ls)
  show ?case
  proof (cases i)
    case 0
    then show ?thesis by simp
  next
    case (Suc j)
    with Cons.prems have "j < length ls" by simp
    from Cons.IH[OF this] Suc show ?thesis by simp
  qed
qed

lemma forwardOutput_shape:
  "forwardOutput e t r fin =
     concat (map (\<lambda>l. [Scan l, SendMessage t l]) (Text r)) @
     (ScanEnd # (case Err r of None \<Rightarrow> []
        | Some err \<Rightarrow> [Println [Program e, ''scanner error'', Error err]]) @ [Signal fin])"
  by (simp add: forwardOutput_def forward_loop_shape)



text \<open>
  Claim C6. When the scanner of a forwarder stops with an error, the forwarder logs one
  line with the error, still sends its completion signal as its last action, has sent
  the messages of the lines read before, and never calls \<^verbatim>\<open>Finish\<close> nor sends on the
  result channel. The value passed to \<^verbatim>\<open>Finish\<close>, by the supervisor and in every run to
  completion, is determined by what \<^verbatim>\<open>cmd.Wait()\<close> returns alone.
\<close>

theorem scanner_error_only_logged:
  assumes "Execute os w p = Some (Inr (e, go), w', p')"
    and "(g = G_stdout \<and> StdoutPipe os = Inr r) \<or> (g = G_stderr \<and> StderrPipe os = Inr r)"
    and "Err r = Some err"
  shows "prints_of (go g) = [[Name p, ''scanner error'', Error err]]
       \<and> signals_of (go g) = [if g = G_stdout then Ch_stdoutFinished else Ch_stderrFinished]
       \<and> last (go g) = Signal (if g = G_stdout then Ch_stdoutFinished else Ch_stderrFinished)
       \<and> messages_of (go g) = map (Pair (if g = G_stdout then ''out'' else ''err'')) (Text r)
       \<and> finishes_of (go g) = []
       \<and> reports_of (go g) = []
       \<and> finishes_of (go G_supervisor) =
           [case Waited os of
              None \<Rightarrow> Success
            | Some err \<Rightarrow>
                (case extractExitCode err of
                   (exitCode, None) \<Rightarrow> exitCode
                 | (exitCode, Some err') \<Rightarrow> Failed)]
       \<and> (\<forall>sched c. run sched (start go) = Some c \<and> (\<forall>g. threads c g = []) \<longrightarrow>
            finishes_of (map snd (trace c)) = finishes_of (go G_supervisor))"
proof -
  from Execute_started(2)[OF assms(1)] obtain so se where
    pipes: "StdoutPipe os = Inr so" "StderrPipe os = Inr se" and
    f: "go G_stdout = forwardOutput e ''out'' so Ch_stdoutFinished"
       "go G_stderr = forwardOutput e ''err'' se Ch_stderrFinished" by blast
  have s: "go G_supervisor = supervisor p e (Waited os)"
    by (rule Execute_started(4)[OF assms(1)])
  have n: "Program e = Name p"
    using Execute_started(5)[OF assms(1)] by simp
  have fw: "go g = forwardOutput e (if g = G_stdout then ''out'' else ''err'') r
      (if g = G_stdout then Ch_stdoutFinished else Ch_stderrFinished)"
    using assms(2) pipes f by auto
  have "prints_of (go g) = [[Name p, ''scanner error'', Error err]]"
    by (simp only: fw) (simp add: forwardOutput_def assms(3) n)
  moreover have "last (go g) = Signal (if g = G_stdout then Ch_stdoutFinished else Ch_stderrFinished)"
    by (simp only: fw) (simp add: forwardOutput_def)
  moreover have "messages_of (go g) = map (Pair (if g = G_stdout then ''out'' else ''err'')) (Text r)"
    by (simp only: fw forwardOutput_messages)
  moreover have "signals_of (go g) = [if g = G_stdout then Ch_stdoutFinished else Ch_stderrFinished]"
    "finishes_of (go g) = []" "reports_of (go g) = []"
    by (simp_all only: fw forwardOutput_quiet)
  moreover have "\<forall>sched c. run sched (start go) = Some c \<and> (\<forall>g. threads c g = []) \<longrightarrow>
      finishes_of (map snd (trace c)) = finishes_of (go G_supervisor)"
    using complete_run_outcome(1)[OF assms(1)] by (auto simp: s)
  ultimately show ?thesis
    by (simp add: s supervisor_outcome)
qed

theorem scanner_error_only_logged_witness:
  "\<exists>e go w' p'.
     Execute
       \<lparr>StdoutPipe = Inr \<lparr>Text = [''one''], Err = Some (OtherError ''read |0: file already closed'')\<rparr>,
        StderrPipe = Inr \<lparr>Text = [], Err = None\<rparr>,
        Start = None, Waited = None\<rparr>
       \<lparr>created = 0, logged = []\<rparr>
       \<lparr>Name = ''backup'', CommandPath = ''work/backup/main'', MainSource = ''exit 0'',
        executions = [], locked = False\<rparr>
       = Some (Inr (e, go), w', p')
     \<and> prints_of (go G_stdout) = [[''backup'', ''scanner error'', ''read |0: file already closed'']]
     \<and> signals_of (go G_stdout) = [Ch_stdoutFinished]
     \<and> messages_of (go G_stdout) = [(''out'', ''one'')]
     \<and> finishes_of (go G_stdout) = []
     \<and> finishes_of (go G_supervisor) = [0]"
proof -
  let ?so = "\<lparr>Text = [''one''], Err = Some (OtherError ''read |0: file already closed'')\<rparr>"
  let ?os = "\<lparr>StdoutPipe = Inr ?so,
        StderrPipe = Inr \<lparr>Text = [], Err = None\<rparr>,
        Start = None, Waited = None\<rparr>"
  let ?w = "\<lparr>created = 0, logged = []\<rparr>"
  let ?p = "\<lparr>Name = ''backup'', CommandPath = ''work/backup/main'', MainSource = ''exit 0'',
        executions = [], locked = False\<rparr>"
  obtain e go w' p' where ex: "Execute ?os ?w ?p = Some (Inr (e, go), w', p')"
    by (simp add: Execute_def Execute_body_def NewExecution_def Let_def)
  have pipe: "(G_stdout = G_stdout \<and> StdoutPipe ?os = Inr ?so) \<or>
      (G_stdout = G_stderr \<and> StderrPipe ?os = Inr ?so)"
    by simp
  have er: "Err ?so = Some (OtherError ''read |0: file already closed'')"
    by simp
  from scanner_error_only_logged[OF ex pipe er]
  have c: "prints_of (go G_stdout) = [[''backup'', ''scanner error'', ''read |0: file already closed'']]"
    "signals_of (go G_stdout) = [Ch_stdoutFinished]"
    "messages_of (go G_stdout) = [(''out'', ''one'')]"
    "finishes_of (go G_stdout) = []"
    "finishes_of (go G_supervisor) = [0]"
    by (simp_all add: Success_def)
  show ?thesis
    by (intro exI conjI) (rule ex, rule c(1), rule c(2), rule c(3), rule c(4), rule c(5))
qed

section \<open>Reaping after draining\<close>




section \<open>Launch errors and the history of a Program\<close>

text \<open>
  Claim C2. When \<^verbatim>\<open>StdoutPipe\<close>, \<^verbatim>\<open>StderrPipe\<close> or \<^verbatim>\<open>Start\<close> fails, \<^verbatim>\<open>Execute\<close> returns that
  error and no Execution; no Execution has been created, and the Program is as it was
  before the call, its list of executions included. Only the log has one more line.
\<close>

theorem launch_failure:
  assumes "\<not> locked p"
    and "StdoutPipe os = Inl err
       \<or> (\<exists>so. StdoutPipe os = Inr so \<and> StderrPipe os = Inl err)
       \<or> (\<exists>so se. StdoutPipe os = Inr so \<and> StderrPipe os = Inr se \<and> Start os = Some err)"
  shows "Execute os w p =
           Some (Inl err,
                 w\<lparr>logged := logged w @ [ProgramLog (''program.go'', 45) p [''executing command'']]\<rparr>,
                 p)
       \<and> created (fst (snd (the (Execute os w p)))) = created w
       \<and> Executions (snd (snd (the (Execute os w p)))) = Executions p"
proof -
  have "Execute os w p =
           Some (Inl err,
                 w\<lparr>logged := logged w @ [ProgramLog (''program.go'', 45) p [''executing command'']]\<rparr>,
                 p)"
    using assms
    by (auto simp: Execute_def Execute_body_def Let_def ProgramLog_def unlocked_same)
  then show ?thesis by simp
qed

theorem launch_failure_witness:
  "Execute
     \<lparr>StdoutPipe = Inr \<lparr>Text = [], Err = None\<rparr>,
      StderrPipe = Inr \<lparr>Text = [], Err = None\<rparr>,
      Start = Some (OtherError ''fork/exec work/gone/main: no such file or directory''),
      Waited = None\<rparr>
     \<lparr>created = 4, logged = []\<rparr>
     \<lparr>Name = ''gone'', CommandPath = ''work/gone/main'', MainSource = '''',
      executions = [], locked = False\<rparr>
   = Some (Inl (OtherError ''fork/exec work/gone/main: no such file or directory''),
       \<lparr>created = 4, logged = [[''program.go:45       '', ''[gone]'', ''executing command'']]\<rparr>,
       \<lparr>Name = ''gone'', CommandPath = ''work/gone/main'', MainSource = '''',
        executions = [], locked = False\<rparr>)"
proof -
  let ?os = "\<lparr>StdoutPipe = Inr \<lparr>Text = [], Err = None\<rparr>,
      StderrPipe = Inr \<lparr>Text = [], Err = None\<rparr>,
      Start = Some (OtherError ''fork/exec work/gone/main: no such file or directory''),
      Waited = None\<rparr>"
  let ?p = "\<lparr>Name = ''gone'', CommandPath = ''work/gone/main'', MainSource = '''',
      executions = [], locked = False\<rparr>"
  have a: "\<not> locked ?p" by simp
  have b: "StdoutPipe ?os = Inl (OtherError ''fork/exec work/gone/main: no such file or directory'')
       \<or> (\<exists>so. StdoutPipe ?os = Inr so \<and>
             StderrPipe ?os = Inl (OtherError ''fork/exec work/gone/main: no such file or directory''))
       \<or> (\<exists>so se. StdoutPipe ?os = Inr so \<and> StderrPipe ?os = Inr se \<and>
             Start ?os = Some (OtherError ''fork/exec work/gone/main: no such file or directory''))"
    by simp
  from launch_failure[OF a b, of "\<lparr>created = 4, logged = []\<rparr>"] show ?thesis
    by (simp add: ProgramLog_def caller_column_Execute)
qed

lemma Execute_grows:
  assumes "Execute os w p = Some (r, w', p')"
  shows "prefix (executions p) (executions p')"
    and "chronological w p \<Longrightarrow> chronological w' p'"
proof -
  from assms have nl: "\<not> locked p"
    by (auto simp: Execute_def split: if_splits)
  show "prefix (executions p) (executions p')"
    using assms
    by (auto simp: Execute_def Execute_body_def Let_def NewExecution_def
        split: if_splits sum.splits option.splits)
  show "chronological w' p'" if "chronological w p"
    using assms that
    by (auto simp: Execute_def Execute_body_def Let_def NewExecution_def chronological_def
        sorted_wrt_append less_Suc_eq
        split: if_splits sum.splits option.splits)
qed

lemma calls_grow:
  "calls cs (w, p) = Some (w2, p2) \<Longrightarrow>
     prefix (executions p) (executions p2) \<and> (chronological w p \<longrightarrow> chronological w2 p2)"
proof (induction cs "(w, p)" arbitrary: w p rule: calls.induct)
  case 1
  then show ?case by simp
next
  case (2 os cs w p)
  from "2.prems" obtain r w1 p1 where ex: "Execute os w p = Some (r, w1, p1)"
    and rest: "calls cs (w1, p1) = Some (w2, p2)"
    by (auto split: option.splits)
  from "2.hyps"[OF ex refl refl rest] Execute_grows[OF ex] show ?case
    by (auto intro: prefix_order.trans)
next
  case (3 cs w p)
  then show ?case by simp
qed



section \<open>The message buffer\<close>

lemma chan_step_bounded:
  "cap (chan_step op c) = cap c"
  "length (buf c) \<le> cap c \<Longrightarrow> length (buf (chan_step op c)) \<le> cap c"
  by (cases op; auto simp: chan_send_def chan_recv_def chan_close_def split: list.splits)+

lemma chan_run_bounded:
  "length (buf c) \<le> cap c \<Longrightarrow>
     cap (chan_run ops c) = cap c \<and> length (buf (chan_run ops c)) \<le> cap c"
  unfolding chan_run_def
proof (induction ops arbitrary: c)
  case Nil
  then show ?case by simp
next
  case (Cons op ops)
  from Cons.IH[of "chan_step op c"] chan_step_bounded[where op = op and c = c] Cons.prems
  show ?case by simp
qed

lemma chan_run_snoc: "chan_run (ops @ [op]) c = chan_step op (chan_run ops c)"
  by (simp add: chan_run_def)

lemma sends_fill:
  "chan_run (replicate n (Send x)) (make_chan k) =
     \<lparr>cap = k, buf = replicate (min n k) x, closed = False\<rparr>"
proof (induction n)
  case 0
  then show ?case by (simp add: chan_run_def make_chan_def)
next
  case (Suc n)
  have "replicate (Suc n) (Send x) = replicate n (Send x) @ [Send x]"
    by (simp add: replicate_append_same)
  then have "chan_run (replicate (Suc n) (Send x)) (make_chan k) =
      chan_step (Send x) \<lparr>cap = k, buf = replicate (min n k) x, closed = False\<rparr>"
    by (simp only: chan_run_snoc Suc.IH)
  also have "\<dots> = \<lparr>cap = k, buf = replicate (min (Suc n) k) x, closed = False\<rparr>"
    by (auto simp: chan_send_def min_def replicate_append_same)
  finally show ?case .
qed

text \<open>
  Claim C8. The message channel of every Execution that \<^verbatim>\<open>Execute\<close> returns has capacity
  1000 and is empty. After any sequence of sends, receives and closes it still has
  capacity 1000 and holds at most 1000 messages; \<open>n\<close> sends with no receive leave
  \<open>min n 1000\<close> messages in it.
\<close>

theorem message_buffer_bounded:
  assumes "Execute os w p = Some (Inr (e, go), w', p')"
  shows "cap (messages e) = 1000 \<and> buf (messages e) = []
       \<and> (\<forall>ops. cap (chan_run ops (messages e)) = 1000
              \<and> length (buf (chan_run ops (messages e))) \<le> 1000)
       \<and> (\<forall>n m. length (buf (chan_run (replicate n (Send m)) (messages e))) = min n 1000)"
proof -
  have m: "messages e = make_chan 1000"
    using Execute_started(5)[OF assms] by (simp add: BUFFER_SIZE_def)
  have "cap (chan_run ops (messages e)) = 1000
      \<and> length (buf (chan_run ops (messages e))) \<le> 1000" for ops
    using chan_run_bounded[of "make_chan 1000" ops] by (simp add: m make_chan_def)
  moreover have "length (buf (chan_run (replicate n (Send x)) (messages e))) = min n 1000" for n x
    by (simp add: m sends_fill)
  ultimately show ?thesis
    by (simp add: m make_chan_def)
qed

theorem message_buffer_bounded_witness:
  "\<exists>e go w' p'.
     Execute
       \<lparr>StdoutPipe = Inr \<lparr>Text = [], Err = None\<rparr>, StderrPipe = Inr \<lparr>Text = [], Err = None\<rparr>,
        Start = None, Waited = None\<rparr>
       \<lparr>created = 0, logged = []\<rparr>
       \<lparr>Name = ''backup'', CommandPath = ''work/backup/main'', MainSource = ''exit 0'',
        executions = [], locked = False\<rparr>
       = Some (Inr (e, go), w', p')
     \<and> cap (messages e) = 1000
     \<and> length (buf (chan_run (replicate 1001 (Send (''out'', ''line''))) (messages e))) = 1000
     \<and> length (buf (chan_run [Send (''out'', ''a''), Send (''err'', ''b''), Recv] (messages e)))
         \<le> 1000"
proof -
  let ?ok = "\<lparr>StdoutPipe = Inr \<lparr>Text = [], Err = None\<rparr>,
        StderrPipe = Inr \<lparr>Text = [], Err = None\<rparr>, Start = None, Waited = None\<rparr>"
  let ?w = "\<lparr>created = 0, logged = []\<rparr>"
  let ?p = "\<lparr>Name = ''backup'', CommandPath = ''work/backup/main'', MainSource = ''exit 0'',
        executions = [], locked = False\<rparr>"
  obtain e go w' p' where ex: "Execute ?ok ?w ?p = Some (Inr (e, go), w', p')"
    by (simp add: Execute_def Execute_body_def NewExecution_def Let_def)
  note all = message_buffer_bounded[OF ex]
  have a: "cap (messages e) = 1000"
    using all by simp
  have b: "length (buf (chan_run (replicate 1001 (Send (''out'', ''line''))) (messages e))) = 1000"
    using all[THEN conjunct2, THEN conjunct2, THEN conjunct2, rule_format,
        of 1001 "(''out'', ''line'')"] by simp
  have c: "length (buf (chan_run [Send (''out'', ''a''), Send (''err'', ''b''), Recv] (messages e)))
         \<le> 1000"
    using all[THEN conjunct2, THEN conjunct2, THEN conjunct1, rule_format,
        of "[Send (''out'', ''a''), Send (''err'', ''b''), Recv]"] by simp
  show ?thesis
    by (intro exI conjI) (rule ex, rule a, rule b, rule c)
qed

section \<open>Discovered programs\<close>

lemma ReadDir_loop_result:
  "ReadDir_loop fs dir infos (programs, w) =
     (programs @
        map (\<lambda>info. \<lparr>Name = info, CommandPath = filepath_Join fs [dir, info, ''main''],
                     MainSource = projr (ioutil_ReadFile fs (filepath_Join fs [dir, info, ''main''])),
                     executions = [], locked = False\<rparr>)
          (filter (\<lambda>info. os_Stat fs (filepath_Join fs [dir, info, ''main'']) = None \<and>
                     \<not> isl (ioutil_ReadFile fs (filepath_Join fs [dir, info, ''main''])))
             infos),
      w\<lparr>logged := logged w @
        map (\<lambda>info. [''program executable:'', filepath_Join fs [dir, info, ''main'']])
          (filter (\<lambda>info. os_Stat fs (filepath_Join fs [dir, info, ''main'']) = None \<and>
                     \<not> isl (ioutil_ReadFile fs (filepath_Join fs [dir, info, ''main''])))
             infos)\<rparr>)"
proof (induction infos arbitrary: programs w)
  case Nil
  then show ?case by simp
next
  case (Cons info infos)
  show ?case
    by (simp add: Cons.IH Let_def split: option.splits sum.splits)
qed

text \<open>
  Claim C9. \<^verbatim>\<open>ReadDir\<close> returns an error exactly when \<^verbatim>\<open>ioutil.ReadDir\<close> does, and then
  the same error. Otherwise it returns, in the order of the listing, one Program for
  each entry whose path \<^verbatim>\<open>filepath.Join(dir, entry, "main")\<close> both \<^verbatim>\<open>os.Stat\<close> and
  \<^verbatim>\<open>ioutil.ReadFile\<close> accept: its Name is the entry's name, its CommandPath that path, its
  MainSource the file's contents. The other entries are skipped: they give no error and
  no line in the log.
\<close>

theorem ReadDir_lists_programs:
  "(fst (ReadDir fs dir w) = Inl err) = (ioutil_ReadDir fs dir = Inl err)
   \<and> (ioutil_ReadDir fs dir = Inr infos \<longrightarrow>
        fst (ReadDir fs dir w) =
          Inr (map (\<lambda>info. \<lparr>Name = info, CommandPath = filepath_Join fs [dir, info, ''main''],
                     MainSource = projr (ioutil_ReadFile fs (filepath_Join fs [dir, info, ''main''])),
                     executions = [], locked = False\<rparr>)
          (filter (\<lambda>info. os_Stat fs (filepath_Join fs [dir, info, ''main'']) = None \<and>
                     \<not> isl (ioutil_ReadFile fs (filepath_Join fs [dir, info, ''main''])))
             infos))
        \<and> logged (snd (ReadDir fs dir w)) =
          logged w @ [''looking for programs in'', dir] #
          map (\<lambda>info. [''program executable:'', filepath_Join fs [dir, info, ''main'']])
            (filter (\<lambda>info. os_Stat fs (filepath_Join fs [dir, info, ''main'']) = None \<and>
                       \<not> isl (ioutil_ReadFile fs (filepath_Join fs [dir, info, ''main''])))
               infos))"
  by (auto simp: ReadDir_def Let_def ReadDir_loop_result split: sum.splits prod.splits)

theorem ReadDir_lists_programs_witness:
  "fst (ReadDir
     \<lparr>ioutil_ReadDir = (\<lambda>d. if d = ''work'' then Inr [''backup'', ''notes'', ''report'', ''sync'']
                            else Inl (OtherError ''no such file or directory'')),
      os_Stat = (\<lambda>f. if f = ''work/notes/main'' then Some (OtherError ''no such file or directory'')
                      else None),
      ioutil_ReadFile = (\<lambda>f. if f = ''work/report/main'' then Inl (OtherError ''permission denied'')
                              else Inr ''#!/bin/sh''),
      filepath_Join = (\<lambda>xs. concat (map (\<lambda>x. x @ ''/'') (butlast xs)) @ last xs)\<rparr>
     ''work'' \<lparr>created = 0, logged = []\<rparr>)
   = Inr [\<lparr>Name = ''backup'', CommandPath = ''work/backup/main'', MainSource = ''#!/bin/sh'',
           executions = [], locked = False\<rparr>,
          \<lparr>Name = ''sync'', CommandPath = ''work/sync/main'', MainSource = ''#!/bin/sh'',
           executions = [], locked = False\<rparr>]"
proof -
  let ?fs = "\<lparr>ioutil_ReadDir = (\<lambda>d. if d = ''work'' then Inr [''backup'', ''notes'', ''report'', ''sync'']
                            else Inl (OtherError ''no such file or directory'')),
      os_Stat = (\<lambda>f. if f = ''work/notes/main'' then Some (OtherError ''no such file or directory'')
                      else None),
      ioutil_ReadFile = (\<lambda>f. if f = ''work/report/main'' then Inl (OtherError ''permission denied'')
                              else Inr ''#!/bin/sh''),
      filepath_Join = (\<lambda>xs. concat (map (\<lambda>x. x @ ''/'') (butlast xs)) @ last xs)\<rparr>"
  have ls: "ioutil_ReadDir ?fs ''work'' = Inr [''backup'', ''notes'', ''report'', ''sync'']"
    by simp
  from ReadDir_lists_programs[of ?fs "''work''" "\<lparr>created = 0, logged = []\<rparr>" _
      "[''backup'', ''notes'', ''report'', ''sync'']", THEN conjunct2, rule_format, OF ls,
      THEN conjunct1]
  show ?thesis by simp
qed

end
